theory Spec2Isabelle
  imports Main "HOL-Library.Word" "HOL-Library.Multiset"
begin

section \<open>Failures\<close>

text \<open>
  A Go function of this repository fails in one of two ways: it returns a non-nil
  \<open>error\<close> value (built with \<open>errors.New\<close> or \<open>errors.Wrap\<close>), or it panics
  (\<open>log.Panic\<close>, a failed type assertion, a nil dereference). The two are kept apart,
  since the caller can handle only the first.
\<close>

datatype error = Error string | Panic string

fun is_panic :: "error \<Rightarrow> bool" where
  "is_panic (Panic m) = True"
| "is_panic (Error m) = False"

section \<open>Peer subscriptions (peer/subscription.go)\<close>

text \<open>
  \<open>subscriptions\<close> holds the map from category to the slice of receivers and a pointer
  to the peer. Receivers are pointers and are compared by identity, so \<open>'r\<close> is the type
  of receiver addresses. Of the peer only \<open>isClosed()\<close> is read; its current answer is
  the field \<open>peer_isClosed\<close>. The mutex is not modelled: every operation below is one
  critical section.
\<close>

record ('c, 'r) subscriptions =
  subs :: "'c \<rightharpoonup> 'r list"
  peer_isClosed :: bool

definition makeSubscriptions :: "bool \<Rightarrow> ('c, 'r) subscriptions" where
  "makeSubscriptions closed = \<lparr>subs = Map.empty, peer_isClosed = closed\<rparr>"

text \<open>\<open>s.subs[cat]\<close>: a missing key reads as the nil slice.\<close>

definition subs_at :: "('c, 'r) subscriptions \<Rightarrow> 'c \<Rightarrow> 'r list" where
  "subs_at s cat = (case subs s cat of None \<Rightarrow> [] | Some recs \<Rightarrow> recs)"

text \<open>The loop of \<open>add\<close>: is some element of the slice the receiver \<open>r\<close>?\<close>

fun subscribed :: "'r list \<Rightarrow> 'r \<Rightarrow> bool" where
  "subscribed [] r = False"
| "subscribed (rec # recs) r = (if rec = r then True else subscribed recs r)"

text \<open>
  \<open>add\<close> returns the error (if any) and the registry as it is after the call. A panic
  is reported in the same place as a returned error, as \<open>Panic\<close>.
\<close>

definition add ::
  "('c, 'r) subscriptions \<Rightarrow> 'c \<Rightarrow> 'r \<Rightarrow> error option \<times> ('c, 'r) subscriptions" where
  "add s cat r =
     (if peer_isClosed s then (Some (Error ''peer closed''), s)
      else if subscribed (subs_at s cat) r
        then (Some (Panic ''duplicate peer subscription''), s)
      else (None, s\<lparr>subs := (subs s)(cat \<mapsto> subs_at s cat @ [r])\<rparr>))"

text \<open>The loop of \<open>delete\<close>: the first index that holds \<open>r\<close>.\<close>

fun first_index :: "'r list \<Rightarrow> 'r \<Rightarrow> nat option" where
  "first_index [] r = None"
| "first_index (rec # recs) r =
     (if rec = r then Some 0 else map_option Suc (first_index recs r))"

text \<open>
  \<open>delete\<close> overwrites the found slot with the last element and cuts the slice by one.
  Nothing is written when the receiver is not found.
\<close>

definition delete :: "('c, 'r) subscriptions \<Rightarrow> 'c \<Rightarrow> 'r \<Rightarrow> ('c, 'r) subscriptions" where
  "delete s cat r =
     (let recs = subs_at s cat in
      case first_index recs r of
        None \<Rightarrow> s
      | Some i \<Rightarrow>
          s\<lparr>subs := (subs s)(cat \<mapsto>
               take (length recs - 1) (recs[i := recs ! (length recs - 1)]))\<rparr>)"

text \<open>
  \<open>put\<close> sends the tuple \<open>(p, m)\<close> on the channel of every receiver in the slice of
  the message's category, in slice order. The channels are a store from receiver to the
  sequence of tuples sent to it so far; a send that blocks on a full channel is a send that
  completes later, and the store records the completed sends. \<open>wire.Msg\<close> is an
  interface declared outside these files, so its method \<open>Category\<close> is a parameter.
\<close>

type_synonym ('p, 'm) MsgTuple = "'p \<times> 'm"

fun send_all ::
  "'r list \<Rightarrow> ('p, 'm) MsgTuple \<Rightarrow> ('r \<Rightarrow> ('p, 'm) MsgTuple list)
     \<Rightarrow> ('r \<Rightarrow> ('p, 'm) MsgTuple list)" where
  "send_all [] t msgs = msgs"
| "send_all (rec # recs) t msgs = send_all recs t (msgs(rec := msgs rec @ [t]))"

definition put ::
  "('m \<Rightarrow> 'c) \<Rightarrow> ('c, 'r) subscriptions \<Rightarrow> ('r \<Rightarrow> ('p, 'm) MsgTuple list) \<Rightarrow> 'm \<Rightarrow> 'p
     \<Rightarrow> ('r \<Rightarrow> ('p, 'm) MsgTuple list)" where
  "put Category s msgs m p = send_all (subs_at s (Category m)) (p, m) msgs"

text \<open>
  A history of one registry: calls of \<open>add\<close> and \<open>delete\<close>, and the peer closing in
  between. \<open>run\<close> follows the history for as long as every \<open>add\<close> succeeds.
\<close>

datatype ('c, 'r) event = Subscribe 'c 'r | Unsubscribe 'c 'r | PeerCloses

fun run :: "('c, 'r) subscriptions \<Rightarrow> ('c, 'r) event list \<Rightarrow> ('c, 'r) subscriptions option" where
  "run s [] = Some s"
| "run s (Subscribe cat r # es) =
     (case add s cat r of (None, s') \<Rightarrow> run s' es | (Some e, s') \<Rightarrow> None)"
| "run s (Unsubscribe cat r # es) = run (delete s cat r) es"
| "run s (PeerCloses # es) = run (s\<lparr>peer_isClosed := True\<rparr>) es"

section \<open>Ethereum channel backend (backend/ethereum/channel)\<close>

type_synonym byte = "8 word"

subsection \<open>Byte helpers of go-ethereum\<close>

text \<open>
  The backend encodes through \<open>abi.Arguments.Pack\<close> of go-ethereum, "as with
  abi.encode() in the smart contracts". The packer is a dependency, not a file of this
  repository; the definitions of this and the next subsection follow it for the nine ABI
  types the backend declares (\<open>uint256\<close>, \<open>uint64\<close>, \<open>address\<close>, \<open>bool\<close>,
  \<open>bytes32\<close>, \<open>bytes\<close> and the slices \<open>address[]\<close>, \<open>uint256[]\<close>,
  \<open>uint256[][]\<close>). The message of \<open>Test_EthSignature\<close> is an encoded state and is
  reproduced byte for byte below (\<open>encodeState_Test_EthSignature\<close>).
\<close>

text \<open>The \<open>k\<close> low bytes of \<open>n\<close>, most significant first.\<close>

fun be_bytes :: "nat \<Rightarrow> nat \<Rightarrow> byte list" where
  "be_bytes 0 n = []"
| "be_bytes (Suc k) n = be_bytes k (n div 256) @ [of_nat (n mod 256)]"

definition RightPadBytes :: "byte list \<Rightarrow> nat \<Rightarrow> byte list" where
  "RightPadBytes sl l =
     (if l \<le> length sl then sl else sl @ replicate (l - length sl) 0)"

definition LeftPadBytes :: "byte list \<Rightarrow> nat \<Rightarrow> byte list" where
  "LeftPadBytes sl l =
     (if l \<le> length sl then sl else replicate (l - length sl) 0 @ sl)"

text \<open>\<open>U256\<close>: a big integer as 32 bytes, two's complement modulo \<open>2^256\<close>.\<close>

definition U256 :: "int \<Rightarrow> byte list" where
  "U256 n = be_bytes 32 (nat (n mod 2 ^ 256))"

text \<open>\<open>packNum\<close> on a Go \<open>int\<close> that is a length or an offset.\<close>

definition packNum :: "nat \<Rightarrow> byte list" where
  "packNum n = U256 (int n)"

definition packBytesSlice :: "byte list \<Rightarrow> nat \<Rightarrow> byte list" where
  "packBytesSlice bytes l = packNum l @ RightPadBytes bytes ((l + 31) div 32 * 32)"

subsection \<open>The ABI packer\<close>

datatype abi_type =
    Uint256Ty | Uint64Ty | AddressTy | BoolTy | Bytes32Ty | BytesTy | SliceTy abi_type

text \<open>
  The Go values the backend hands to the packer: \<open>*big.Int\<close>, \<open>uint64\<close>,
  \<open>common.Address\<close> (20 bytes), \<open>bool\<close>, \<open>[32]byte\<close>, \<open>[]byte\<close> and slices of
  these.
\<close>

datatype go_value =
    BigInt int
  | Uint64 "64 word"
  | AddressV "160 word"
  | BoolV bool
  | Array32 "256 word"
  | ByteSlice "byte list"
  | SliceV "go_value list"

fun isDynamicType :: "abi_type \<Rightarrow> bool" where
  "isDynamicType BytesTy = True"
| "isDynamicType (SliceTy t) = True"
| "isDynamicType t = False"

fun getTypeSize :: "abi_type \<Rightarrow> nat" where
  "getTypeSize t = 32"

definition typeErr :: error where
  "typeErr = Error ''abi: cannot use value as type''"

text \<open>
  \<open>Type.pack\<close>: the type check first (a value of another kind is an error), then the
  element, or for a slice the length, and the elements in order; elements of a dynamic
  type go to the tail and leave their offset in their place. \<open>pack_slice\<close> is the loop
  over the elements, with the loop variables \<open>offset\<close>, \<open>ret\<close> and \<open>tail\<close>.
\<close>

fun pack :: "abi_type \<Rightarrow> go_value \<Rightarrow> error + byte list"
  and pack_slice ::
    "abi_type \<Rightarrow> go_value list \<Rightarrow> nat \<Rightarrow> byte list \<Rightarrow> byte list \<Rightarrow> error + byte list" where
  "pack (SliceTy t) (SliceV vs) =
     pack_slice t vs (if isDynamicType t then getTypeSize t * length vs else 0)
       (packNum (length vs)) []"
| "pack Uint256Ty (BigInt n) = Inr (U256 n)"
| "pack Uint64Ty (Uint64 w) = Inr (U256 (int (unat w)))"
| "pack AddressTy (AddressV a) = Inr (LeftPadBytes (be_bytes 20 (unat a)) 32)"
| "pack BoolTy (BoolV b) = Inr (if b then U256 1 else U256 0)"
| "pack Bytes32Ty (Array32 w) = Inr (RightPadBytes (be_bytes 32 (unat w)) 32)"
| "pack BytesTy (ByteSlice bs) = Inr (packBytesSlice bs (length bs))"
| "pack t v = Inl typeErr"
| "pack_slice t [] offset ret tail = Inr (ret @ tail)"
| "pack_slice t (v # vs) offset ret tail =
     (case pack t v of
        Inl err \<Rightarrow> Inl err
      | Inr val \<Rightarrow>
          if \<not> isDynamicType t then pack_slice t vs offset (ret @ val) tail
          else pack_slice t vs (offset + length val) (ret @ packNum offset) (tail @ val))"

text \<open>
  \<open>Arguments.Pack\<close>: the count check, then every argument packed in order; a dynamic
  argument leaves its offset in the head and its bytes in \<open>variableInput\<close>, which is
  appended at the end.
\<close>

fun Pack_loop ::
  "(abi_type \<times> go_value) list \<Rightarrow> nat \<Rightarrow> byte list \<Rightarrow> byte list \<Rightarrow> error + byte list" where
  "Pack_loop [] inputOffset ret variableInput = Inr (ret @ variableInput)"
| "Pack_loop ((t, a) # rest) inputOffset ret variableInput =
     (case pack t a of
        Inl err \<Rightarrow> Inl err
      | Inr packed \<Rightarrow>
          if isDynamicType t
          then Pack_loop rest (inputOffset + length packed) (ret @ packNum inputOffset)
                 (variableInput @ packed)
          else Pack_loop rest inputOffset (ret @ packed) variableInput)"

definition Pack :: "abi_type list \<Rightarrow> go_value list \<Rightarrow> error + byte list" where
  "Pack arguments args =
     (if length args \<noteq> length arguments then Inl (Error ''argument count mismatch'')
      else Pack_loop (zip arguments args) (sum_list (map getTypeSize arguments)) [] [])"

subsection \<open>Types of the channel package and of the contract bindings\<close>

text \<open>
  \<open>perunwallet.Address\<close> is an interface. The backend asserts that its value is a
  \<open>*wallet.Address\<close> of the Ethereum wallet; a nil interface or an address of another
  wallet fails the assertion.
\<close>

datatype wallet_Address = NilAddress | EthAddress "160 word" | OtherAddress "byte list"

text \<open>
  \<open>channel.App\<close>: an interface with the method \<open>Def\<close>; \<open>AppDef d\<close> is an app
  whose \<open>Def()\<close> is \<open>d\<close>. The field may be nil.
\<close>

datatype channel_App = NilApp | AppDef wallet_Address

text \<open>
  An asset is an \<open>io.Encoder\<close>; the backend asserts that it is a \<open>*test.Asset\<close>, whose
  field \<open>Address\<close> is again a \<open>perunwallet.Address\<close>.
\<close>

datatype Asset = NilAsset | TestAsset wallet_Address | OtherAsset


text \<open>
  \<open>channel.Params\<close>, \<open>channel.SubAlloc\<close> and \<open>channel.State\<close> (whose embedded
  \<open>Allocation\<close> gives the fields \<open>Assets\<close>, \<open>OfParts\<close> and \<open>Locked\<close>), and
  the structs of the generated contract bindings. The identifier \<open>[32]byte\<close> is a
  256-bit word, \<open>uint64\<close> a 64-bit word; a \<open>*big.Int\<close> (nonce, balances) is an
  integer and is taken to be non-nil.
\<close>

record Params =
  ChallengeDuration :: "64 word"
  Parts :: "wallet_Address list"
  App :: channel_App
  Nonce :: int



record PerunTypesParams =
  Params_ChallengeDuration :: int
  Params_Nonce :: int
  Params_App :: "160 word"
  Params_Participants :: "160 word list"

record PerunTypesSubAlloc =
  SubAlloc_ID :: "256 word"
  SubAlloc_Balances :: "int list"

record PerunTypesAllocation =
  Allocation_Assets :: "160 word list"
  Allocation_Balances :: "int list list"
  Allocation_Locked :: "PerunTypesSubAlloc list"



subsection \<open>The backend\<close>

definition abiUint256 :: abi_type where "abiUint256 = Uint256Ty"
definition abiUint256Arr :: abi_type where "abiUint256Arr = SliceTy Uint256Ty"
definition abiUint256ArrArr :: abi_type where "abiUint256ArrArr = SliceTy (SliceTy Uint256Ty)"
definition abiAddress :: abi_type where "abiAddress = AddressTy"
definition abiAddressArr :: abi_type where "abiAddressArr = SliceTy AddressTy"
definition abiBytes :: abi_type where "abiBytes = BytesTy"
definition abiBytes32 :: abi_type where "abiBytes32 = Bytes32Ty"

definition nil_dereference :: error where
  "nil_dereference = Panic ''invalid memory address or nil pointer dereference''"

definition interface_conversion :: error where
  "interface_conversion = Panic ''interface conversion''"


text \<open>The assertion \<open>part.(*wallet.Address)\<close> followed by the read of \<open>.Address\<close>.\<close>

fun asEthAddress :: "wallet_Address \<Rightarrow> error + 160 word" where
  "asEthAddress (EthAddress a) = Inr a"
| "asEthAddress NilAddress = Inl interface_conversion"
| "asEthAddress (OtherAddress bs) = Inl interface_conversion"

fun pwToCommonAddresses :: "wallet_Address list \<Rightarrow> error + 160 word list" where
  "pwToCommonAddresses [] = Inr []"
| "pwToCommonAddresses (part # addr) =
     (case asEthAddress part of
        Inl e \<Rightarrow> Inl e
      | Inr a \<Rightarrow>
          (case pwToCommonAddresses addr of Inl e \<Rightarrow> Inl e | Inr cAddrs \<Rightarrow> Inr (a # cAddrs)))"


definition channelParamsToEthParams :: "Params \<Rightarrow> error + PerunTypesParams" where
  "channelParamsToEthParams p =
     (case App p of
        NilApp \<Rightarrow> Inl nil_dereference
      | AppDef d \<Rightarrow>
          (case asEthAddress d of
             Inl e \<Rightarrow> Inl e
           | Inr app \<Rightarrow>
               (case pwToCommonAddresses (Parts p) of
                  Inl e \<Rightarrow> Inl e
                | Inr parts \<Rightarrow>
                    Inr \<lparr>Params_ChallengeDuration = int (unat (ChallengeDuration p)),
                         Params_Nonce = Nonce p,
                         Params_App = app,
                         Params_Participants = parts\<rparr>)))"



definition encodeParams :: "PerunTypesParams \<Rightarrow> error + byte list" where
  "encodeParams params =
     Pack [abiUint256, abiUint256, abiAddress, abiAddressArr]
       [BigInt (Params_ChallengeDuration params),
        BigInt (Params_Nonce params),
        AddressV (Params_App params),
        SliceV (map AddressV (Params_Participants params))]"

definition encodeSubAlloc :: "PerunTypesSubAlloc \<Rightarrow> error + byte list" where
  "encodeSubAlloc sub =
     Pack [abiBytes32, abiUint256Arr]
       [Array32 (SubAlloc_ID sub), SliceV (map BigInt (SubAlloc_Balances sub))]"

text \<open>The loop of \<open>encodeAllocation\<close> over \<open>alloc.Locked\<close>.\<close>

fun encodeSubAllocs :: "PerunTypesSubAlloc list \<Rightarrow> byte list \<Rightarrow> error + byte list" where
  "encodeSubAllocs [] subAllocs = Inr subAllocs"
| "encodeSubAllocs (sub # rest) subAllocs =
     (case encodeSubAlloc sub of
        Inl err \<Rightarrow> Inl err
      | Inr subAlloc \<Rightarrow> encodeSubAllocs rest (subAllocs @ subAlloc))"

definition encodeAllocation :: "PerunTypesAllocation \<Rightarrow> error + byte list" where
  "encodeAllocation alloc =
     (case encodeSubAllocs (Allocation_Locked alloc) [] of
        Inl err \<Rightarrow> Inl err
      | Inr subAllocs \<Rightarrow>
          Pack [abiAddressArr, abiUint256ArrArr, abiBytes]
            [SliceV (map AddressV (Allocation_Assets alloc)),
             SliceV (map (\<lambda>row. SliceV (map BigInt row)) (Allocation_Balances alloc)),
             ByteSlice subAllocs])"


text \<open>
  \<open>ChannelID\<close>. \<open>crypto.Keccak256\<close> is a parameter; its digest has 32 bytes, which
  is all of \<open>id\<close>, so \<open>copy(id[:], digest)\<close> is the digest. A nil \<open>p\<close> panics at the
  first field read.
\<close>

definition ChannelID :: "(byte list \<Rightarrow> 256 word) \<Rightarrow> Params option \<Rightarrow> error + 256 word" where
  "ChannelID Keccak256 p =
     (case p of
        None \<Rightarrow> Inl nil_dereference
      | Some p' \<Rightarrow>
          (case channelParamsToEthParams p' of
             Inl e \<Rightarrow> Inl e
           | Inr params \<Rightarrow>
               (case encodeParams params of
                  Inl err \<Rightarrow> Inl (Panic ''could not encode parameters'')
                | Inr bytes \<Rightarrow> Inr (Keccak256 bytes))))"




subsection \<open>The encodings in closed form\<close>

text \<open>
  What the packer produces for the backend's calls, written out: every value is one
  32-byte word, a slice is its element count followed by its elements, and dynamic
  arguments are reached through byte offsets. These functions are not in the source; the
  lemmas \<open>encodeParams_bytes\<close>, \<open>encodeSubAlloc_bytes\<close>,
  \<open>encodeAllocation_bytes\<close> and \<open>encodeState_bytes\<close> show that the encoders
  compute them.
\<close>

definition encAddress :: "160 word \<Rightarrow> byte list" where
  "encAddress a = LeftPadBytes (be_bytes 20 (unat a)) 32"

definition encBytes32 :: "256 word \<Rightarrow> byte list" where
  "encBytes32 w = RightPadBytes (be_bytes 32 (unat w)) 32"

definition encAddressArr :: "160 word list \<Rightarrow> byte list" where
  "encAddressArr as = packNum (length as) @ concat (map encAddress as)"

definition encUint256Arr :: "int list \<Rightarrow> byte list" where
  "encUint256Arr row = packNum (length row) @ concat (map U256 row)"

fun rowOffsets :: "nat \<Rightarrow> int list list \<Rightarrow> byte list" where
  "rowOffsets offset [] = []"
| "rowOffsets offset (row # rows) =
     packNum offset @ rowOffsets (offset + (32 + 32 * length row)) rows"

definition encUint256ArrArr :: "int list list \<Rightarrow> byte list" where
  "encUint256ArrArr rows =
     packNum (length rows) @ rowOffsets (32 * length rows) rows
       @ concat (map encUint256Arr rows)"

definition lenUint256ArrArr :: "int list list \<Rightarrow> nat" where
  "lenUint256ArrArr rows =
     32 + 32 * length rows + sum_list (map (\<lambda>row. 32 + 32 * length row) rows)"

definition encSubAlloc :: "PerunTypesSubAlloc \<Rightarrow> byte list" where
  "encSubAlloc sub =
     encBytes32 (SubAlloc_ID sub) @ packNum 64 @ encUint256Arr (SubAlloc_Balances sub)"

definition lenSubAllocs :: "PerunTypesSubAlloc list \<Rightarrow> nat" where
  "lenSubAllocs locked = sum_list (map (\<lambda>sub. 96 + 32 * length (SubAlloc_Balances sub)) locked)"

definition encAllocation :: "PerunTypesAllocation \<Rightarrow> byte list" where
  "encAllocation alloc =
     (let lenAssets = 32 + 32 * length (Allocation_Assets alloc);
          lenBalances = lenUint256ArrArr (Allocation_Balances alloc)
      in packNum 96 @ packNum (96 + lenAssets) @ packNum (96 + lenAssets + lenBalances)
           @ encAddressArr (Allocation_Assets alloc)
           @ encUint256ArrArr (Allocation_Balances alloc)
           @ packNum (lenSubAllocs (Allocation_Locked alloc))
           @ concat (map encSubAlloc (Allocation_Locked alloc)))"

definition lenAllocation :: "PerunTypesAllocation \<Rightarrow> nat" where
  "lenAllocation alloc =
     96 + (32 + 32 * length (Allocation_Assets alloc))
        + lenUint256ArrArr (Allocation_Balances alloc)
        + (32 + lenSubAllocs (Allocation_Locked alloc))"


text \<open>
  The list encoding as the specification words it: the concatenation of the elements'
  encodings in list order, and nothing else.
\<close>

definition spec_list_encoding :: "('a \<Rightarrow> byte list) \<Rightarrow> 'a list \<Rightarrow> byte list" where
  "spec_list_encoding enc xs = concat (map enc xs)"

text \<open>
  The parameters as the specification words their encoding: the two scalars and the app
  identifier at fixed width, in field order, then the participants as such a list.
\<close>

definition spec_encodeParams :: "PerunTypesParams \<Rightarrow> byte list" where
  "spec_encodeParams params =
     U256 (Params_ChallengeDuration params) @ U256 (Params_Nonce params)
       @ encAddress (Params_App params)
       @ spec_list_encoding encAddress (Params_Participants params)"

text \<open>
  A field "with a defined encoding": an address is an Ethereum address, an asset is a
  \<open>*test.Asset\<close> over an Ethereum address, the app and the application data are not
  nil.
\<close>

fun isEthAddress :: "wallet_Address \<Rightarrow> bool" where
  "isEthAddress (EthAddress a) = True"
| "isEthAddress NilAddress = False"
| "isEthAddress (OtherAddress bs) = False"


definition hasEncoding :: "Params \<Rightarrow> bool" where
  "hasEncoding p =
     ((case App p of NilApp \<Rightarrow> False | AppDef d \<Rightarrow> isEthAddress d)
      \<and> list_all isEthAddress (Parts p))"





definition example_params :: Params where
  "example_params =
     \<lparr>ChallengeDuration = 60, Parts = [EthAddress 1, EthAddress 2],
      App = AppDef (EthAddress 3), Nonce = 7\<rparr>"

text \<open>
  Reading an encoding back: a byte string as a big-endian number, and the \<open>i\<close>-th
  32-byte word of an encoding as a number.
\<close>

definition be_nat :: "byte list \<Rightarrow> nat" where
  "be_nat bs = foldl (\<lambda>acc b. acc * 256 + unat b) 0 bs"

definition word_at :: "byte list \<Rightarrow> nat \<Rightarrow> nat" where
  "word_at bytes i = be_nat (take 32 (drop (32 * i) bytes))"



section \<open>Funder (backend/ethereum/channel)\<close>

text \<open>
  Modelled from the spec: \<open>Funder.Fund\<close> is called by \<open>TestFunder_Fund\<close> but its file
  is not among the source files, and neither are \<open>channel.FundingReq\<close>,
  \<open>channel.Allocation\<close> and the ledger client. Everything in this section follows
  section 4.3 and section 6 of the specification. A funding request: the parameters and
  the allocation (either may be nil) and the index of the local participant.
\<close>

record Allocation =
  Alloc_Assets :: "Asset list"
  Alloc_OfParts :: "nat list list"

text \<open>Modelled from the spec: the request \<open>{params, allocation, participantIndex}\<close>.\<close>

record FundingReq =
  Req_Params :: "Params option"
  Req_Allocation :: "Allocation option"
  Idx :: nat

text \<open>
  Modelled from the spec: the two calls of the ledger client,
  \<open>depositedAmount(channelID, asset, participant)\<close> and
  \<open>deposit(channelID, asset, participant, amount)\<close>.
\<close>

datatype ledger_call =
    DepositedAmount "256 word" Asset nat
  | Deposit "256 word" Asset nat nat

fun is_query :: "ledger_call \<Rightarrow> bool" where
  "is_query (DepositedAmount cid asset part) = True"
| "is_query (Deposit cid asset part amount) = False"

text \<open>
  Modelled from the spec: the external ledger, a black box with per-call atomicity. It
  holds the deposited amount per channel, asset and participant, decides by itself
  whether it confirms a deposit (\<open>confirms\<close>), and \<open>calls\<close> records every call made
  to it, so that "no ledger interaction" can be stated.
\<close>

record Ledger =
  deposited :: "256 word \<times> Asset \<times> nat \<Rightarrow> nat"
  confirms :: "256 word \<times> Asset \<times> nat \<Rightarrow> nat \<Rightarrow> bool"
  calls :: "ledger_call list"

text \<open>
  Modelled from the spec: the cancellation/deadline of a call. \<open>Some n\<close> fires after
  \<open>n\<close> more ledger calls have completed (\<open>Some 0\<close> has already fired), \<open>None\<close>
  never fires. Cancellation is checked at the suspension points, that is before each
  ledger call.
\<close>

type_synonym Context = "nat option"

fun expired :: "Context \<Rightarrow> bool" where
  "expired (Some 0) = True"
| "expired ctx = False"

fun tick :: "Context \<Rightarrow> Context" where
  "tick (Some (Suc n)) = Some n"
| "tick ctx = ctx"

text \<open>Modelled from the spec: a context that does not fire during \<open>n\<close> ledger calls.\<close>

fun outlasts :: "Context \<Rightarrow> nat \<Rightarrow> bool" where
  "outlasts None n = True"
| "outlasts (Some m) n = (n \<le> m)"

text \<open>
  Modelled from the spec: the participant's allocation entry, one amount per asset; a
  participant without a row has the empty entry.
\<close>

definition entry :: "Allocation \<Rightarrow> nat \<Rightarrow> nat list" where
  "entry alloc idx =
     (if idx < length (Alloc_OfParts alloc) then Alloc_OfParts alloc ! idx else [])"

text \<open>
  Modelled from the spec: "for each asset the participant must deposit, the Funder (1)
  queries the external ledger for the participant's already-deposited amount for this
  channel/asset; (2) if already fully deposited, treats this asset as complete without
  submitting a new transaction; (3) otherwise submits a deposit transaction for the
  remaining amount and awaits confirmation." A cancelled context aborts with an error and
  rolls nothing back; a deposit the ledger does not confirm is an error.
\<close>

fun fundAssets ::
  "256 word \<Rightarrow> nat \<Rightarrow> (Asset \<times> nat) list \<Rightarrow> Context \<Rightarrow> Ledger \<Rightarrow> error option \<times> Ledger" where
  "fundAssets cid idx [] ctx L = (None, L)"
| "fundAssets cid idx ((asset, amount) # rest) ctx L =
     (if amount = 0 then fundAssets cid idx rest ctx L
      else if expired ctx then (Some (Error ''funding canceled''), L)
      else
        (let L1 = L\<lparr>calls := calls L @ [DepositedAmount cid asset idx]\<rparr>;
             held = deposited L (cid, asset, idx)
         in if amount \<le> held then fundAssets cid idx rest (tick ctx) L1
            else if expired (tick ctx) then (Some (Error ''funding canceled''), L1)
            else
              (let L2 = L1\<lparr>calls := calls L1 @ [Deposit cid asset idx (amount - held)]\<rparr>
               in if \<not> confirms L (cid, asset, idx) (amount - held)
                  then (Some (Error ''ledger transaction failed''), L2)
                  else fundAssets cid idx rest (tick (tick ctx))
                         (L2\<lparr>deposited := (deposited L2)
                                ((cid, asset, idx) := held + (amount - held))\<rparr>))))"

text \<open>
  Modelled from the spec: \<open>fund(ctx, request)\<close>. A nil \<open>params\<close> or
  \<open>allocation\<close> is a fatal invariant error; "if the participant's allocation entry
  across all assets is empty/zero, funding is a no-op that succeeds immediately";
  otherwise the assets are funded one by one. The channel identity of the parameters
  (section 4.2) is a parameter.
\<close>

definition Fund ::
  "(Params \<Rightarrow> 256 word) \<Rightarrow> Context \<Rightarrow> FundingReq \<Rightarrow> Ledger \<Rightarrow> error option \<times> Ledger" where
  "Fund channelID ctx req L =
     (case Req_Params req of
        None \<Rightarrow> (Some (Panic ''invalid funding request''), L)
      | Some p \<Rightarrow>
          (case Req_Allocation req of
             None \<Rightarrow> (Some (Panic ''invalid funding request''), L)
           | Some alloc \<Rightarrow>
               if list_all (\<lambda>amount. amount = 0) (entry alloc (Idx req)) then (None, L)
               else fundAssets (channelID p) (Idx req)
                      (zip (Alloc_Assets alloc) (entry alloc (Idx req))) ctx L))"

text \<open>
  Modelled from the spec: the amount a request allocates to an asset, the largest amount
  listed for it (0 when the asset is not listed).
\<close>

fun allocated :: "(Asset \<times> nat) list \<Rightarrow> Asset \<Rightarrow> nat" where
  "allocated [] a = 0"
| "allocated ((asset, amount) # rest) a =
     (if asset = a then max amount (allocated rest a) else allocated rest a)"

text \<open>
  The scenario of the specification: two participants, one asset, allocation
  \<open>[100, 50]\<close>; an empty ledger that confirms every deposit.
\<close>

definition example_req :: FundingReq where
  "example_req =
     \<lparr>Req_Params = Some example_params,
      Req_Allocation =
        Some \<lparr>Alloc_Assets = [TestAsset (EthAddress 9)], Alloc_OfParts = [[100], [50]]\<rparr>,
      Idx = 0\<rparr>"

definition empty_ledger :: Ledger where
  "empty_ledger = \<lparr>deposited = (\<lambda>key. 0), confirms = (\<lambda>key amount. True), calls = []\<rparr>"

text \<open>The ledger after the first participant has funded.\<close>

definition funded_ledger :: Ledger where
  "funded_ledger =
     \<lparr>deposited = (\<lambda>key. 0)((0, TestAsset (EthAddress 9), 0) := 100),
      confirms = (\<lambda>key amount. True),
      calls = [DepositedAmount 0 (TestAsset (EthAddress 9)) 0,
               Deposit 0 (TestAsset (EthAddress 9)) 0 100]\<rparr>"

section \<open>Properties of the subscriptions\<close>

lemma subscribed_iff: "subscribed recs r \<longleftrightarrow> r \<in> set recs"
  by (induction recs) auto

lemma first_index_None: "first_index recs r = None \<longleftrightarrow> r \<notin> set recs"
  by (induction recs) auto

lemma first_index_Some:
  "first_index recs r = Some i \<Longrightarrow> i < length recs \<and> recs ! i = r \<and> r \<notin> set (take i recs)"
proof (induction recs arbitrary: i)
  case Nil
  then show ?case by simp
next
  case (Cons a recs)
  show ?case
  proof (cases "a = r")
    case True
    with Cons.prems show ?thesis by simp
  next
    case False
    with Cons.prems obtain j where j: "first_index recs r = Some j" "i = Suc j"
      by auto
    with Cons.IH [of j] False show ?thesis by auto
  qed
qed

lemma mset_swap_remove:
  assumes "i < length recs"
  shows "mset (take (length recs - 1) (recs[i := recs ! (length recs - 1)]))
           = mset recs - {#recs ! i#}"
proof -
  from assms have ne: "recs \<noteq> []" by auto
  have lst: "recs ! (length recs - 1) = last recs"
    using ne by (simp add: last_conv_nth)
  have "mset (butlast recs @ [last recs]) = add_mset (last recs) (mset (butlast recs))"
    by simp
  then have whole: "mset recs = add_mset (last recs) (mset (butlast recs))"
    using ne by simp
  show ?thesis
  proof (cases "i = length recs - 1")
    case True
    then have "take (length recs - 1) (recs[i := recs ! (length recs - 1)]) = butlast recs"
      by (simp add: butlast_conv_take)
    moreover have "mset recs - {#recs ! i#} = mset (butlast recs)"
      using True lst whole by simp
    ultimately show ?thesis by simp
  next
    case False
    with assms have il: "i < length (butlast recs)" by simp
    have "take (length recs - 1) (recs[i := recs ! (length recs - 1)])
            = (butlast recs)[i := last recs]"
      unfolding lst by (simp add: butlast_conv_take take_update_swap)
    then have "mset (take (length recs - 1) (recs[i := recs ! (length recs - 1)]))
            = add_mset (last recs) (mset (butlast recs) - {#butlast recs ! i#})"
      using il by (simp add: mset_update)
    moreover have same: "butlast recs ! i = recs ! i"
      using il by (simp add: nth_butlast)
    moreover have "recs ! i \<in># mset (butlast recs)"
      using il same nth_mem [of i "butlast recs"] by simp
    ultimately show ?thesis using whole by simp
  qed
qed

lemma send_all_queue:
  "send_all recs t msgs r = msgs r @ replicate (count (mset recs) r) t"
  by (induction recs arbitrary: msgs) (auto simp: replicate_append_same)

lemma subs_at_add:
  "add s cat r = (None, s') \<Longrightarrow>
     subs_at s' c = (if c = cat then subs_at s cat @ [r] else subs_at s c)"
  by (auto simp: add_def subs_at_def split: if_splits)

lemma add_None_fresh: "add s cat r = (None, s') \<Longrightarrow> r \<notin> set (subs_at s cat)"
  by (auto simp: add_def subscribed_iff split: if_splits)

lemma mset_subs_at_delete:
  "mset (subs_at (delete s cat r) c)
     = (if c = cat then mset (subs_at s cat) - {#r#} else mset (subs_at s c))"
proof (cases "first_index (subs_at s cat) r")
  case None
  then have "r \<notin> set (subs_at s cat)" by (simp add: first_index_None)
  then have "mset (subs_at s cat) - {#r#} = mset (subs_at s cat)" by simp
  with None show ?thesis by (simp add: delete_def)
next
  case (Some i)
  from first_index_Some [OF Some] have i: "i < length (subs_at s cat)" "subs_at s cat ! i = r"
    by simp_all
  have "subs_at (delete s cat r) c
          = (if c = cat
             then take (length (subs_at s cat) - 1)
                    ((subs_at s cat)[i := subs_at s cat ! (length (subs_at s cat) - 1)])
             else subs_at s c)"
    using Some by (simp add: delete_def Let_def subs_at_def)
  then show ?thesis using mset_swap_remove [OF i(1)] i(2) by simp
qed

lemma distinct_subs_at_delete:
  assumes "distinct (subs_at s c)"
  shows "distinct (subs_at (delete s cat r) c)"
proof -
  have le: "count (mset (subs_at (delete s cat r) c)) x \<le> count (mset (subs_at s c)) x" for x
    by (simp add: mset_subs_at_delete)
  have "count (mset (subs_at s c)) x \<le> 1" for x
    using assms by (simp add: distinct_count_atmost_1)
  with le have one: "count (mset (subs_at (delete s cat r) c)) x \<le> 1" for x
    using le_trans by blast
  have "count (mset (subs_at (delete s cat r) c)) x
          = (if x \<in> set (subs_at (delete s cat r) c) then 1 else 0)" for x
  proof (cases "x \<in> set (subs_at (delete s cat r) c)")
    case True
    then have "1 \<le> count (mset (subs_at (delete s cat r) c)) x"
      by (simp add: Suc_le_eq)
    with one [of x] have "count (mset (subs_at (delete s cat r) c)) x = 1"
      by (rule le_antisym)
    with True show ?thesis by (simp only: if_True)
  next
    case False
    then show ?thesis by (simp add: count_mset_0_iff)
  qed
  then show ?thesis by (simp add: distinct_count_atmost_1)
qed

lemma distinct_subs_at_add:
  "add s cat r = (None, s') \<Longrightarrow> distinct (subs_at s c) \<Longrightarrow> distinct (subs_at s' c)"
  using add_None_fresh [of s cat r s'] by (auto simp: subs_at_add)

lemma subs_at_close: "subs_at (s\<lparr>peer_isClosed := b\<rparr>) c = subs_at s c"
  by (simp add: subs_at_def)

lemma run_distinct:
  "run s es = Some s' \<Longrightarrow> (\<forall>c. distinct (subs_at s c)) \<Longrightarrow> distinct (subs_at s' c)"
proof (induction s es arbitrary: c rule: run.induct)
  case (1 s)
  then show ?case by simp
next
  case (2 s cat r es)
  from "2.prems"(1) obtain s1 where a: "add s cat r = (None, s1)" and r: "run s1 es = Some s'"
    by (auto split: prod.splits option.splits)
  have "\<forall>c. distinct (subs_at s1 c)"
    using distinct_subs_at_add [OF a] "2.prems"(2) by blast
  with "2.IH" a r show ?case by simp
next
  case (3 s cat r es)
  then show ?case using distinct_subs_at_delete by fastforce
next
  case (4 s es)
  then show ?case by (simp add: subs_at_close)
qed

lemma subs_at_makeSubscriptions: "subs_at (makeSubscriptions closed) c = []"
  by (simp add: makeSubscriptions_def subs_at_def)

lemma put_queue:
  "put Category s msgs m p r
     = msgs r @ replicate (count (mset (subs_at s (Category m))) r) (p, m)"
  by (simp add: put_def send_all_queue)

lemma put_queue_distinct:
  "distinct (subs_at s (Category m)) \<Longrightarrow>
     put Category s msgs m p r
       = (if r \<in> set (subs_at s (Category m)) then msgs r @ [(p, m)] else msgs r)"
  by (simp add: put_queue distinct_count_atmost_1)

lemma run_keeps_receiver:
  "run s es = Some s' \<Longrightarrow> Unsubscribe cat r \<notin> set es \<Longrightarrow> r \<in> set (subs_at s cat)
     \<Longrightarrow> r \<in> set (subs_at s' cat)"
proof (induction s es rule: run.induct)
  case (1 s)
  then show ?case by simp
next
  case (2 s c x es)
  from "2.prems"(1) obtain s1 where a: "add s c x = (None, s1)" and r: "run s1 es = Some s'"
    by (auto split: prod.splits option.splits)
  have "r \<in> set (subs_at s1 cat)"
    using "2.prems"(3) by (auto simp: subs_at_add [OF a])
  with "2.IH" a r "2.prems"(2) show ?case by simp
next
  case (3 s c x es)
  have "r \<in># mset (subs_at (delete s c x) cat)"
  proof (cases "c = cat")
    case True
    with "3.prems"(2) have "x \<noteq> r" by auto
    with "3.prems"(3) True show ?thesis
      by (simp add: mset_subs_at_delete in_diff_count)
  next
    case False
    with "3.prems"(3) show ?thesis by (simp add: mset_subs_at_delete)
  qed
  then have "r \<in> set (subs_at (delete s c x) cat)" by simp
  with "3.IH" "3.prems" show ?case by simp
next
  case (4 s es)
  then show ?case by (simp add: subs_at_close)
qed

lemma run_keeps_absent:
  "run s es = Some s' \<Longrightarrow> Subscribe cat r \<notin> set es \<Longrightarrow> r \<notin> set (subs_at s cat)
     \<Longrightarrow> r \<notin> set (subs_at s' cat)"
proof (induction s es rule: run.induct)
  case (1 s)
  then show ?case by simp
next
  case (2 s c x es)
  from "2.prems"(1) obtain s1 where a: "add s c x = (None, s1)" and r: "run s1 es = Some s'"
    by (auto split: prod.splits option.splits)
  have "r \<notin> set (subs_at s1 cat)"
    using "2.prems"(2,3) by (auto simp: subs_at_add [OF a])
  with "2.IH" a r "2.prems"(2) show ?case by simp
next
  case (3 s c x es)
  have "set_mset (mset (subs_at (delete s c x) cat)) \<subseteq> set_mset (mset (subs_at s cat))"
    by (auto simp: mset_subs_at_delete dest: in_diffD)
  with "3.prems"(3) have "r \<notin> set (subs_at (delete s c x) cat)" by auto
  with "3.IH" "3.prems" show ?case by simp
next
  case (4 s es)
  then show ?case by (simp add: subs_at_close)
qed

lemma delete_removes:
  assumes "distinct (subs_at s cat)"
  shows "r \<notin> set (subs_at (delete s cat r) cat)"
proof -
  have "count (mset (subs_at s cat)) r \<le> 1"
    using assms by (simp add: distinct_count_atmost_1)
  then have "count (mset (subs_at (delete s cat r) cat)) r = 0"
    by (simp add: mset_subs_at_delete)
  then show ?thesis by (simp add: count_mset_0_iff)
qed

lemmas registry_eval = add_def delete_def subs_at_def makeSubscriptions_def Let_def put_def

text \<open>
  C5. On a closed peer \<open>add\<close> returns the error "peer closed". On an open peer
  that already holds the pair \<open>(cat, r)\<close> it panics with "duplicate peer
  subscription" instead of returning an error.
\<close>

theorem add_closed_error_duplicate_panic:
  "(peer_isClosed s \<longrightarrow> fst (add s cat r) = Some (Error ''peer closed'')) \<and>
   (\<not> peer_isClosed s \<and> r \<in> set (subs_at s cat) \<longrightarrow>
      fst (add s cat r) = Some (Panic ''duplicate peer subscription''))"
  by (simp add: add_def subscribed_iff)

theorem add_closed_error_duplicate_panic_witness:
  "fst (add (\<lparr>subs = [1 \<mapsto> [7]], peer_isClosed = True\<rparr> :: (nat, nat) subscriptions) 1 7)
     = Some (Error ''peer closed'') \<and>
   fst (add (\<lparr>subs = [1 \<mapsto> [7]], peer_isClosed = False\<rparr> :: (nat, nat) subscriptions) 1 7)
     = Some (Panic ''duplicate peer subscription'')"
  using add_closed_error_duplicate_panic
          [of "\<lparr>subs = [1 \<mapsto> [7]], peer_isClosed = True\<rparr> :: (nat, nat) subscriptions" 1 7]
        add_closed_error_duplicate_panic
          [of "\<lparr>subs = [1 \<mapsto> [7]], peer_isClosed = False\<rparr> :: (nat, nat) subscriptions" 1 7]
  by (simp add: subs_at_def)

text \<open>
  C6. In every registry reached from the empty one by calls of \<open>add\<close> that
  succeed and calls of \<open>delete\<close> (with the peer closing at any point), no
  category's slice holds the same receiver twice.
\<close>

theorem receiver_at_most_once_per_category:
  "run (makeSubscriptions closed) es = Some s \<Longrightarrow> distinct (subs_at s cat)"
  using run_distinct [of "makeSubscriptions closed" es s cat]
  by (simp add: subs_at_makeSubscriptions)

theorem receiver_at_most_once_per_category_witness:
  "run (makeSubscriptions False)
       [Subscribe (1::nat) (5::nat), Subscribe 1 6, Unsubscribe 1 5, Subscribe 1 5]
     = Some \<lparr>subs = [1 \<mapsto> [6, 5]], peer_isClosed = False\<rparr> \<and>
   distinct (subs_at (\<lparr>subs = [1 \<mapsto> [6, 5]], peer_isClosed = False\<rparr>
                        :: (nat, nat) subscriptions) 1)"
proof -
  have h: "run (makeSubscriptions False)
             [Subscribe (1::nat) (5::nat), Subscribe 1 6, Unsubscribe 1 5, Subscribe 1 5]
           = Some \<lparr>subs = [1 \<mapsto> [6, 5]], peer_isClosed = False\<rparr>"
    by (simp add: registry_eval)
  show ?thesis
    using h receiver_at_most_once_per_category [OF h, of 1] by simp
qed

text \<open>
  C7. Take a registry \<open>s0\<close> reached from the empty one, let \<open>add s0 cat r\<close>
  succeed, and let any further history without a \<open>delete\<close> of \<open>(cat, r)\<close>
  lead to \<open>s2\<close>. Then \<open>put\<close> of a message of category \<open>cat\<close> appends
  exactly one tuple \<open>(p, m)\<close> to the queue of \<open>r\<close>, appends exactly one to the
  queue of every receiver in the slice of \<open>cat\<close>, and leaves every other queue as it
  was. After \<open>delete s2 cat r\<close>, and after any further history without an
  \<open>add\<close> of \<open>(cat, r)\<close>, \<open>put\<close> leaves the queue of \<open>r\<close> as it was.
\<close>

theorem put_delivers_once_while_subscribed:
  assumes "run (makeSubscriptions closed) es0 = Some s0"
      and "add s0 cat r = (None, s1)"
      and "run s1 es1 = Some s2" and "Unsubscribe cat r \<notin> set es1"
      and "run (delete s2 cat r) es2 = Some s3" and "Subscribe cat r \<notin> set es2"
      and "Category m = cat"
  shows "put Category s2 msgs m p r = msgs r @ [(p, m)] \<and>
         (\<forall>r'. put Category s2 msgs m p r'
                  = (if r' \<in> set (subs_at s2 cat) then msgs r' @ [(p, m)] else msgs r')) \<and>
         put Category (delete s2 cat r) msgs m p r = msgs r \<and>
         put Category s3 msgs m p r = msgs r"
proof -
  have d0: "\<forall>c. distinct (subs_at s0 c)"
    using assms(1) run_distinct [of "makeSubscriptions closed" es0 s0]
    by (simp add: subs_at_makeSubscriptions)
  then have d1: "\<forall>c. distinct (subs_at s1 c)"
    by (simp add: distinct_subs_at_add [OF assms(2)])
  then have d2: "\<forall>c. distinct (subs_at s2 c)"
    using run_distinct [OF assms(3)] by blast
  then have d3: "\<forall>c. distinct (subs_at (delete s2 cat r) c)"
    by (simp add: distinct_subs_at_delete)
  then have d4: "\<forall>c. distinct (subs_at s3 c)"
    using run_distinct [OF assms(5)] by blast
  have "r \<in> set (subs_at s1 cat)"
    by (simp add: subs_at_add [OF assms(2)])
  then have in2: "r \<in> set (subs_at s2 cat)"
    using run_keeps_receiver [OF assms(3,4)] by simp
  have out3: "r \<notin> set (subs_at (delete s2 cat r) cat)"
    using d2 by (simp add: delete_removes)
  then have out4: "r \<notin> set (subs_at s3 cat)"
    using run_keeps_absent [OF assms(5,6)] by simp
  show ?thesis
    using d2 d3 d4 in2 out3 out4 assms(7) by (simp add: put_queue_distinct)
qed

theorem put_delivers_once_while_subscribed_witness:
  "put (\<lambda>m::nat. m) (\<lparr>subs = [1 \<mapsto> [6, 5, 8]], peer_isClosed = False\<rparr>
                        :: (nat, nat) subscriptions) (\<lambda>r. []) 1 (0::nat) 5 = [(0, 1)] \<and>
   put (\<lambda>m::nat. m) (\<lparr>subs = [1 \<mapsto> [6, 5, 8]], peer_isClosed = False\<rparr>
                        :: (nat, nat) subscriptions) (\<lambda>r. []) 1 (0::nat) 8 = [(0, 1)] \<and>
   put (\<lambda>m::nat. m) (\<lparr>subs = [1 \<mapsto> [6, 8]], peer_isClosed = True\<rparr>
                        :: (nat, nat) subscriptions) (\<lambda>r. []) 1 (0::nat) 5 = []"
proof -
  let ?s0 = "\<lparr>subs = [1 \<mapsto> [6]], peer_isClosed = False\<rparr> :: (nat, nat) subscriptions"
  let ?s1 = "\<lparr>subs = [1 \<mapsto> [6, 5]], peer_isClosed = False\<rparr> :: (nat, nat) subscriptions"
  let ?s2 = "\<lparr>subs = [1 \<mapsto> [6, 5, 8]], peer_isClosed = False\<rparr> :: (nat, nat) subscriptions"
  let ?s3 = "\<lparr>subs = [1 \<mapsto> [6, 8]], peer_isClosed = True\<rparr> :: (nat, nat) subscriptions"
  have h0: "run (makeSubscriptions False) [Subscribe 1 6] = Some ?s0"
    by (simp add: registry_eval)
  have h1: "add ?s0 1 5 = (None, ?s1)"
    by (simp add: registry_eval)
  have h2: "run ?s1 [Subscribe 1 8] = Some ?s2"
    by (simp add: registry_eval)
  have h3: "Unsubscribe 1 5 \<notin> set [Subscribe (1::nat) (8::nat)]"
    by simp
  have h4: "run (delete ?s2 1 5) [PeerCloses] = Some ?s3"
    by (simp add: registry_eval)
  have h5: "Subscribe 1 5 \<notin> set [PeerCloses :: (nat, nat) event]"
    by simp
  from put_delivers_once_while_subscribed
         [where Category = "\<lambda>m::nat. m" and m = 1 and msgs = "\<lambda>r. []" and p = "0::nat",
          OF h0 h1 h2 h3 h4 h5]
  show ?thesis
    by (simp add: subs_at_def)
qed

text \<open>
  C10. The closed-peer check of \<open>add\<close> comes before the duplicate check: on a
  closed peer \<open>add\<close> returns the error "peer closed" and the registry is the one
  it was called on, whether or not the pair is already registered; whenever
  \<open>add\<close> panics, the peer is open.
\<close>

theorem add_closed_check_precedes_duplicate_check:
  "(peer_isClosed s \<longrightarrow> add s cat r = (Some (Error ''peer closed''), s)) \<and>
   (\<forall>m. fst (add s cat r) = Some (Panic m) \<longrightarrow> \<not> peer_isClosed s)"
  by (simp add: add_def)

theorem add_closed_check_precedes_duplicate_check_witness:
  "add (\<lparr>subs = [1 \<mapsto> [7]], peer_isClosed = True\<rparr> :: (nat, nat) subscriptions) 1 7
     = (Some (Error ''peer closed''), \<lparr>subs = [1 \<mapsto> [7]], peer_isClosed = True\<rparr>) \<and>
   fst (add (\<lparr>subs = [1 \<mapsto> [7]], peer_isClosed = False\<rparr> :: (nat, nat) subscriptions) 1 7)
     = Some (Panic ''duplicate peer subscription'')"
  using add_closed_check_precedes_duplicate_check
          [of "\<lparr>subs = [1 \<mapsto> [7]], peer_isClosed = True\<rparr> :: (nat, nat) subscriptions" 1 7]
  by (simp add: registry_eval)

section \<open>Properties of the encoders\<close>

lemma length_be_bytes [simp]: "length (be_bytes k n) = k"
  by (induction k arbitrary: n) auto

lemma length_U256 [simp]: "length (U256 n) = 32"
  by (simp add: U256_def)

lemma length_packNum [simp]: "length (packNum n) = 32"
  by (simp add: packNum_def)

lemma length_encAddress [simp]: "length (encAddress a) = 32"
  by (simp add: encAddress_def LeftPadBytes_def)

lemma length_encBytes32 [simp]: "length (encBytes32 a) = 32"
  by (simp add: encBytes32_def RightPadBytes_def)

lemma length_concat_fixed:
  "(\<And>x. length (f x) = k) \<Longrightarrow> length (concat (map f xs)) = k * length xs"
  by (induction xs) simp_all

lemma length_encAddressArr [simp]: "length (encAddressArr as) = 32 + 32 * length as"
  by (simp add: encAddressArr_def length_concat_fixed [where k = 32])

lemma length_encUint256Arr [simp]: "length (encUint256Arr row) = 32 + 32 * length row"
  by (simp add: encUint256Arr_def length_concat_fixed [where k = 32])

lemma length_rowOffsets [simp]: "length (rowOffsets offset rows) = 32 * length rows"
  by (induction rows arbitrary: offset) simp_all

lemma length_concat_rows:
  "length (concat (map encUint256Arr rows)) = sum_list (map (\<lambda>row. 32 + 32 * length row) rows)"
  by (induction rows) simp_all

lemma length_encUint256ArrArr [simp]:
  "length (encUint256ArrArr rows) = lenUint256ArrArr rows"
  by (simp add: encUint256ArrArr_def lenUint256ArrArr_def length_concat_rows)

lemma length_encSubAlloc [simp]:
  "length (encSubAlloc sub) = 96 + 32 * length (SubAlloc_Balances sub)"
  by (simp add: encSubAlloc_def)

lemma length_concat_encSubAlloc [simp]:
  "length (concat (map encSubAlloc locked)) = lenSubAllocs locked"
  by (induction locked) (simp_all add: lenSubAllocs_def)

lemma lenSubAllocs_dvd: "32 dvd lenSubAllocs locked"
  by (induction locked) (simp_all add: lenSubAllocs_def)


lemma length_encAllocation [simp]: "length (encAllocation alloc) = lenAllocation alloc"
  by (simp add: encAllocation_def lenAllocation_def Let_def)


lemma packBytesSlice_aligned:
  assumes "32 dvd length bs"
  shows "packBytesSlice bs (length bs) = packNum (length bs) @ bs"
proof -
  from assms obtain k where "length bs = 32 * k" by (auto simp: dvd_def)
  then have "(length bs + 31) div 32 * 32 = length bs" by simp
  then show ?thesis by (simp add: packBytesSlice_def RightPadBytes_def)
qed

lemma pack_slice_addresses:
  "pack_slice AddressTy (map AddressV as) offset ret tail
     = Inr (ret @ concat (map encAddress as) @ tail)"
  by (induction as arbitrary: ret) (simp_all add: encAddress_def)

lemma pack_slice_uint256s:
  "pack_slice Uint256Ty (map BigInt ns) offset ret tail
     = Inr (ret @ concat (map U256 ns) @ tail)"
  by (induction ns arbitrary: ret) simp_all

lemma pack_abiAddressArr:
  "pack abiAddressArr (SliceV (map AddressV as)) = Inr (encAddressArr as)"
  by (simp add: abiAddressArr_def encAddressArr_def pack_slice_addresses)

lemma pack_abiUint256Arr:
  "pack abiUint256Arr (SliceV (map BigInt ns)) = Inr (encUint256Arr ns)"
  by (simp add: abiUint256Arr_def encUint256Arr_def pack_slice_uint256s)

lemma pack_slice_rows:
  "pack_slice (SliceTy Uint256Ty) (map (\<lambda>row. SliceV (map BigInt row)) rows) offset ret tail
     = Inr (ret @ rowOffsets offset rows @ tail @ concat (map encUint256Arr rows))"
proof (induction rows arbitrary: offset ret tail)
  case Nil
  then show ?case by simp
next
  case (Cons row rows)
  have "pack (SliceTy Uint256Ty) (SliceV (map BigInt row)) = Inr (encUint256Arr row)"
    using pack_abiUint256Arr [of row] by (simp add: abiUint256Arr_def)
  then show ?case using Cons.IH by simp
qed

lemma pack_abiUint256ArrArr:
  "pack abiUint256ArrArr (SliceV (map (\<lambda>row. SliceV (map BigInt row)) rows))
     = Inr (encUint256ArrArr rows)"
  by (simp add: abiUint256ArrArr_def encUint256ArrArr_def pack_slice_rows)

lemma encodeParams_bytes:
  "encodeParams params
     = Inr (U256 (Params_ChallengeDuration params) @ U256 (Params_Nonce params)
            @ encAddress (Params_App params) @ packNum 128
            @ encAddressArr (Params_Participants params))"
  using pack_abiAddressArr [of "Params_Participants params"]
  by (simp add: encodeParams_def Pack_def abiUint256_def abiAddress_def abiAddressArr_def
      encAddress_def)

lemma encodeSubAlloc_bytes: "encodeSubAlloc sub = Inr (encSubAlloc sub)"
  using pack_abiUint256Arr [of "SubAlloc_Balances sub"]
  by (simp add: encodeSubAlloc_def Pack_def abiBytes32_def abiUint256Arr_def encSubAlloc_def
      encBytes32_def RightPadBytes_def)

lemma encodeSubAllocs_bytes:
  "encodeSubAllocs locked subAllocs = Inr (subAllocs @ concat (map encSubAlloc locked))"
  by (induction locked arbitrary: subAllocs) (simp_all add: encodeSubAlloc_bytes)

lemma encodeAllocation_bytes: "encodeAllocation alloc = Inr (encAllocation alloc)"
proof -
  have "packBytesSlice (concat (map encSubAlloc (Allocation_Locked alloc)))
          (length (concat (map encSubAlloc (Allocation_Locked alloc))))
        = packNum (lenSubAllocs (Allocation_Locked alloc))
            @ concat (map encSubAlloc (Allocation_Locked alloc))"
    using packBytesSlice_aligned [of "concat (map encSubAlloc (Allocation_Locked alloc))"]
      lenSubAllocs_dvd [of "Allocation_Locked alloc"]
    by simp
  then show ?thesis
    using pack_abiAddressArr [of "Allocation_Assets alloc"]
      pack_abiUint256ArrArr [of "Allocation_Balances alloc"]
    by (simp add: encodeAllocation_def encodeSubAllocs_bytes Pack_def abiAddressArr_def
        abiUint256ArrArr_def abiBytes_def encAllocation_def Let_def add.assoc)
qed



lemma be_bytes_zero: "be_bytes k 0 = replicate k 0"
  by (induction k) (simp_all add: replicate_append_same)

lemma be_bytes_leading_zeros:
  "n < 256 ^ k \<Longrightarrow> be_bytes (j + k) n = replicate j 0 @ be_bytes k n"
proof (induction k arbitrary: n)
  case 0
  then show ?case by (simp add: be_bytes_zero)
next
  case (Suc k)
  then have "n div 256 < 256 ^ k"
    by (simp add: less_mult_imp_div_less mult.commute)
  with Suc.IH [of "n div 256"] show ?case by simp
qed

lemma encAddress_word: "encAddress a = be_bytes 32 (unat a)"
proof -
  have "unat a < 2 ^ 160"
    using unsigned_less [of a] by simp
  also have "(2::nat) ^ 160 = 256 ^ 20" by simp
  finally have "be_bytes (12 + 20) (unat a) = replicate 12 0 @ be_bytes 20 (unat a)"
    by (rule be_bytes_leading_zeros)
  then show ?thesis by (simp add: encAddress_def LeftPadBytes_def)
qed




lemma pwToCommonAddresses_ok:
  "list_all isEthAddress addr \<Longrightarrow> \<exists>cAddrs. pwToCommonAddresses addr = Inr cAddrs"
proof (induction addr)
  case Nil
  then show ?case by simp
next
  case (Cons part addr)
  then obtain a cAddrs where "part = EthAddress a" "pwToCommonAddresses addr = Inr cAddrs"
    by (cases part) auto
  then show ?case by simp
qed

lemma pwToCommonAddresses_fail:
  "\<not> list_all isEthAddress addr \<Longrightarrow> pwToCommonAddresses addr = Inl interface_conversion"
proof (induction addr)
  case Nil
  then show ?case by simp
next
  case (Cons part addr)
  show ?case
  proof (cases part)
    case (EthAddress a)
    with Cons show ?thesis by (cases "pwToCommonAddresses addr") auto
  qed simp_all
qed


lemma channelParamsToEthParams_ok:
  "hasEncoding p \<Longrightarrow> \<exists>params. channelParamsToEthParams p = Inr params"
proof -
  assume h: "hasEncoding p"
  then obtain d where d: "App p = AppDef d" "isEthAddress d"
    by (cases "App p") (auto simp: hasEncoding_def)
  then obtain a where a: "d = EthAddress a" by (cases d) auto
  from h obtain parts where "pwToCommonAddresses (Parts p) = Inr parts"
    using pwToCommonAddresses_ok by (auto simp: hasEncoding_def)
  with d a show ?thesis by (simp add: channelParamsToEthParams_def)
qed

lemma channelParamsToEthParams_fail:
  assumes "\<not> hasEncoding p"
  shows "\<exists>e. channelParamsToEthParams p = Inl e \<and> is_panic e"
proof (cases "App p")
  case NilApp
  then show ?thesis by (simp add: channelParamsToEthParams_def nil_dereference_def)
next
  case (AppDef d)
  show ?thesis
  proof (cases d)
    case (EthAddress a)
    with AppDef assms have "\<not> list_all isEthAddress (Parts p)"
      by (simp add: hasEncoding_def)
    then have "pwToCommonAddresses (Parts p) = Inl interface_conversion"
      by (rule pwToCommonAddresses_fail)
    with AppDef EthAddress show ?thesis
      by (simp add: channelParamsToEthParams_def interface_conversion_def)
  qed (simp_all add: AppDef channelParamsToEthParams_def interface_conversion_def)
qed








lemma be_nat_snoc: "be_nat (bs @ [b]) = be_nat bs * 256 + unat b"
  by (simp add: be_nat_def)

lemma unat_byte_of_nat: "unat (of_nat (n mod 256) :: byte) = n mod 256"
  by (simp add: unat_of_nat)

lemma be_nat_be_bytes: "be_nat (be_bytes k n) = n mod 256 ^ k"
proof (induction k arbitrary: n)
  case 0
  then show ?case by (simp add: be_nat_def)
next
  case (Suc k)
  have "be_nat (be_bytes (Suc k) n) = (n div 256) mod 256 ^ k * 256 + n mod 256"
    by (simp add: be_nat_snoc Suc.IH unat_byte_of_nat)
  also have "\<dots> = n mod (256 * 256 ^ k)"
    by (simp add: mod_mult2_eq mult.commute)
  finally show ?case by simp
qed

lemma be_nat_U256: "be_nat (U256 n) = nat (n mod 2 ^ 256)"
proof -
  have "nat (n mod 2 ^ 256) < 2 ^ 256"
    by (simp add: nat_less_iff)
  moreover have "(2::nat) ^ 256 = 256 ^ 32" by simp
  ultimately have "nat (n mod 2 ^ 256) mod 256 ^ 32 = nat (n mod 2 ^ 256)"
    by (simp only: mod_less)
  then show ?thesis by (simp only: U256_def be_nat_be_bytes)
qed

lemma be_nat_U256_uint64: "be_nat (U256 (int (unat w))) = unat w" for w :: "64 word"
proof -
  have "unat w < 2 ^ 64" using unsigned_less [of w] by simp
  also have "(2::nat) ^ 64 < 2 ^ 256" by simp
  finally have "unat w mod 2 ^ 256 = unat w" by (simp only: mod_less)
  moreover have "nat (int (unat w) mod 2 ^ 256) = unat w mod 2 ^ 256"
    by (simp add: nat_mod_distrib nat_power_eq)
  ultimately show ?thesis by (simp only: be_nat_U256)
qed


lemma be_nat_packNum: "be_nat (packNum n) = n mod 2 ^ 256"
proof -
  have "nat (int n mod 2 ^ 256) = n mod 2 ^ 256"
    by (simp add: nat_mod_distrib nat_power_eq)
  then show ?thesis by (simp only: packNum_def be_nat_U256)
qed

lemma be_nat_encAddress: "be_nat (encAddress a) = unat a"
proof -
  have "unat a < 2 ^ 160" using unsigned_less [of a] by simp
  also have "(2::nat) ^ 160 < 256 ^ 32" by simp
  finally have "unat a mod 256 ^ 32 = unat a" by (simp only: mod_less)
  then show ?thesis by (simp only: encAddress_word be_nat_be_bytes)
qed


lemma word_at_skip:
  "length pre = 32 * k \<Longrightarrow> word_at (pre @ rest) (k + i) = word_at rest i"
  by (simp add: word_at_def distrib_left)

lemma word_at_here:
  "length w = 32 \<Longrightarrow> word_at (w @ rest) 0 = be_nat w"
  by (simp add: word_at_def)

lemma word_at_concat:
  assumes "\<forall>x \<in> set xs. length (f x) = 32" and "i < length xs"
  shows "word_at (concat (map f xs) @ rest) i = be_nat (f (xs ! i))"
  using assms
proof (induction xs arbitrary: i)
  case Nil
  then show ?case by simp
next
  case (Cons x xs)
  from Cons.prems(1) have x: "length (f x) = 32" and xs: "\<forall>y \<in> set xs. length (f y) = 32"
    by simp_all
  show ?case
  proof (cases i)
    case 0
    then show ?thesis using word_at_here [of "f x"] x by simp
  next
    case (Suc j)
    with Cons.prems have j: "j < length xs" by simp
    have "word_at (f x @ (concat (map f xs) @ rest)) (1 + j) = word_at (concat (map f xs) @ rest) j"
      by (rule word_at_skip) (simp add: x)
    with Cons.IH [OF xs j] Suc show ?thesis by simp
  qed
qed

lemma word_at_words:
  assumes "\<forall>w \<in> set ws. length w = 32" and "i < length ws"
  shows "word_at (concat ws @ rest) i = be_nat (ws ! i)"
  using word_at_concat [of ws "\<lambda>w. w" i rest] assms by simp

lemma pwToCommonAddresses_map: "pwToCommonAddresses (map EthAddress parts) = Inr parts"
  by (induction parts) simp_all



lemma list_all_isEthAddress:
  "list_all isEthAddress addr \<longleftrightarrow> (\<exists>parts. addr = map EthAddress parts)"
proof
  assume "list_all isEthAddress addr"
  then show "\<exists>parts. addr = map EthAddress parts"
  proof (induction addr)
    case Nil
    then show ?case by simp
  next
    case (Cons a addr)
    then obtain x parts where "a = EthAddress x" "addr = map EthAddress parts"
      by (cases a) auto
    then have "a # addr = map EthAddress (x # parts)" by simp
    then show ?case by (rule exI [of _ "x # parts"])
  qed
next
  assume "\<exists>parts. addr = map EthAddress parts"
  then show "list_all isEthAddress addr" by (auto simp: list_all_iff)
qed

lemma hasEncoding_iff:
  "hasEncoding p \<longleftrightarrow>
     (\<exists>app parts. App p = AppDef (EthAddress app) \<and> Parts p = map EthAddress parts)"
proof -
  have "(case App p of NilApp \<Rightarrow> False | AppDef d \<Rightarrow> isEthAddress d)
          \<longleftrightarrow> (\<exists>app. App p = AppDef (EthAddress app))"
  proof (cases "App p")
    case NilApp
    then show ?thesis by simp
  next
    case (AppDef d)
    then show ?thesis by (cases d) simp_all
  qed
  then show ?thesis by (auto simp: hasEncoding_def list_all_isEthAddress)
qed

lemma ChannelID_bytes:
  assumes "App p = AppDef (EthAddress app)" and "Parts p = map EthAddress parts"
  shows "ChannelID Keccak256 (Some p)
           = Inr (Keccak256 (U256 (int (unat (ChallengeDuration p))) @ U256 (Nonce p)
                   @ encAddress app @ packNum 128 @ packNum (length parts)
                   @ concat (map encAddress parts)))"
  using assms
  by (simp add: ChannelID_def channelParamsToEthParams_def pwToCommonAddresses_map
      encodeParams_bytes encAddressArr_def)

lemma params_bytes_words:
  assumes "bytes = cd @ nonce @ app @ off @ cnt @ concat (map encAddress parts)"
      and "length cd = 32" "length nonce = 32" "length app = 32" "length off = 32"
          "length cnt = 32"
  shows "word_at bytes 0 = be_nat cd" "word_at bytes 1 = be_nat nonce"
        "word_at bytes 2 = be_nat app" "word_at bytes 3 = be_nat off"
        "word_at bytes 4 = be_nat cnt"
        "i < length parts \<Longrightarrow> word_at bytes (5 + i) = unat (parts ! i)"
proof -
  let ?ws = "[cd, nonce, app, off, cnt]"
  let ?rest = "concat (map encAddress parts) @ []"
  have b: "bytes = concat ?ws @ ?rest" using assms(1) by simp
  have all: "\<forall>w \<in> set ?ws. length w = 32" using assms(2-6) by simp
  show "word_at bytes 0 = be_nat cd"
    using word_at_words [OF all, of 0 ?rest] by (simp only: b) simp
  show "word_at bytes 1 = be_nat nonce"
    using word_at_words [OF all, of 1 ?rest] by (simp only: b) simp
  show "word_at bytes 2 = be_nat app"
    using word_at_words [OF all, of 2 ?rest] by (simp only: b) simp
  show "word_at bytes 3 = be_nat off"
    using word_at_words [OF all, of 3 ?rest] by (simp only: b) simp
  show "word_at bytes 4 = be_nat cnt"
    using word_at_words [OF all, of 4 ?rest] by (simp only: b) simp
  show "word_at bytes (5 + i) = unat (parts ! i)" if "i < length parts"
  proof -
    have "length (concat ?ws) = 32 * 5" using assms(2-6) by simp
    then have "word_at (concat ?ws @ ?rest) (5 + i) = word_at ?rest i"
      by (rule word_at_skip)
    also have "\<dots> = be_nat (encAddress (parts ! i))"
      using that by (intro word_at_concat) simp_all
    finally show ?thesis by (simp only: b be_nat_encAddress)
  qed
qed




text \<open>
  C1, as stated, fails: the bytes that \<open>ChannelID\<close> hashes are not the canonical
  encoding of the specification (scalars, identifier, then the participants as a bare
  concatenation). For the parameters below the code hashes 224 bytes, the specification's
  encoding has 160; with the length of the input standing for the digest the two
  identifiers differ.
\<close>

theorem ChannelID_hashes_spec_encoding_counterexample:
  "channelParamsToEthParams example_params
     = Inr \<lparr>Params_ChallengeDuration = 60, Params_Nonce = 7, Params_App = 3,
            Params_Participants = [1, 2]\<rparr> \<and>
   encodeParams \<lparr>Params_ChallengeDuration = 60, Params_Nonce = 7, Params_App = 3,
                  Params_Participants = [1, 2]\<rparr>
     \<noteq> Inr (spec_encodeParams \<lparr>Params_ChallengeDuration = 60, Params_Nonce = 7,
                                   Params_App = 3, Params_Participants = [1, 2]\<rparr>) \<and>
   ChannelID (\<lambda>bytes. of_nat (length bytes)) (Some example_params)
     \<noteq> Inr (of_nat (length (spec_encodeParams
                \<lparr>Params_ChallengeDuration = 60, Params_Nonce = 7, Params_App = 3,
                 Params_Participants = [1, 2]\<rparr>)))"
proof -
  let ?ep = "\<lparr>Params_ChallengeDuration = 60, Params_Nonce = 7, Params_App = 3,
              Params_Participants = [1, 2]\<rparr>"
  have conv: "channelParamsToEthParams example_params = Inr ?ep"
    by (simp add: channelParamsToEthParams_def example_params_def)
  have spec_len: "length (spec_encodeParams ?ep) = 160"
    by (simp add: spec_encodeParams_def spec_list_encoding_def)
  have "length (U256 (Params_ChallengeDuration ?ep) @ U256 (Params_Nonce ?ep)
                 @ encAddress (Params_App ?ep) @ packNum 128
                 @ encAddressArr (Params_Participants ?ep)) = 224"
    by simp
  with spec_len have "length (U256 (Params_ChallengeDuration ?ep) @ U256 (Params_Nonce ?ep)
               @ encAddress (Params_App ?ep) @ packNum 128
               @ encAddressArr (Params_Participants ?ep))
             \<noteq> length (spec_encodeParams ?ep)"
    by simp
  then have "U256 (Params_ChallengeDuration ?ep) @ U256 (Params_Nonce ?ep)
               @ encAddress (Params_App ?ep) @ packNum 128
               @ encAddressArr (Params_Participants ?ep)
             \<noteq> spec_encodeParams ?ep"
    by metis
  then have bytes: "encodeParams ?ep \<noteq> Inr (spec_encodeParams ?ep)"
    by (simp only: encodeParams_bytes sum.inject not_False_eq_True)
  have "ChannelID (\<lambda>bytes. of_nat (length bytes)) (Some example_params) = Inr 224"
    by (simp add: ChannelID_def conv encodeParams_bytes)
  with spec_len
  have "ChannelID (\<lambda>bytes. of_nat (length bytes)) (Some example_params)
          \<noteq> Inr (of_nat (length (spec_encodeParams ?ep)))"
    by simp
  with conv bytes show ?thesis by blast
qed

text \<open>
  C1, amended. For parameters whose app definition is the Ethereum address \<open>app\<close> and
  whose participants are the Ethereum addresses \<open>parts\<close>, \<open>ChannelID\<close> is the
  Keccak256 digest of the ABI encoding of the parameters: the 32-byte words challenge
  duration, nonce (modulo \<open>2^256\<close>), app address, the offset 128, the number of
  participants, and then one word per participant in list order. It is a function of the
  parameters alone. It panics on all other parameters (a nil app, an address that is not
  an Ethereum address), and these are its only failures.
\<close>

theorem ChannelID_is_hash_of_abi_encoding:
  "(\<forall>app parts bytes.
      App p = AppDef (EthAddress app) \<and> Parts p = map EthAddress parts \<and>
      bytes = U256 (int (unat (ChallengeDuration p))) @ U256 (Nonce p) @ encAddress app
                @ packNum 128 @ packNum (length parts) @ concat (map encAddress parts) \<longrightarrow>
      ChannelID Keccak256 (Some p) = Inr (Keccak256 bytes) \<and>
      length bytes = 160 + 32 * length parts \<and>
      word_at bytes 0 = unat (ChallengeDuration p) \<and>
      word_at bytes 1 = nat (Nonce p mod 2 ^ 256) \<and>
      word_at bytes 2 = unat app \<and>
      word_at bytes 3 = 128 \<and>
      word_at bytes 4 = length parts mod 2 ^ 256 \<and>
      (\<forall>i<length parts. word_at bytes (5 + i) = unat (parts ! i))) \<and>
   (hasEncoding p \<longleftrightarrow>
      (\<exists>app parts. App p = AppDef (EthAddress app) \<and> Parts p = map EthAddress parts)) \<and>
   (\<not> hasEncoding p \<longrightarrow> (\<exists>e. ChannelID Keccak256 (Some p) = Inl e \<and> is_panic e))"
proof -
  have first: "ChannelID Keccak256 (Some p) = Inr (Keccak256 bytes) \<and>
      length bytes = 160 + 32 * length parts \<and>
      word_at bytes 0 = unat (ChallengeDuration p) \<and>
      word_at bytes 1 = nat (Nonce p mod 2 ^ 256) \<and>
      word_at bytes 2 = unat app \<and>
      word_at bytes 3 = 128 \<and>
      word_at bytes 4 = length parts mod 2 ^ 256 \<and>
      (\<forall>i<length parts. word_at bytes (5 + i) = unat (parts ! i))"
    if a: "App p = AppDef (EthAddress app)" and b: "Parts p = map EthAddress parts"
      and c: "bytes = U256 (int (unat (ChallengeDuration p))) @ U256 (Nonce p) @ encAddress app
                @ packNum 128 @ packNum (length parts) @ concat (map encAddress parts)"
    for app parts bytes
  proof -
    note w = params_bytes_words [OF c length_U256 length_U256 length_encAddress
        length_packNum length_packNum]
    have "ChannelID Keccak256 (Some p) = Inr (Keccak256 bytes)"
      using ChannelID_bytes [OF a b] c by simp
    moreover have "length bytes = 160 + 32 * length parts"
      by (simp add: c length_concat_fixed [where k = 32])
    moreover have "word_at bytes 0 = unat (ChallengeDuration p)"
      using w(1) by (simp only: be_nat_U256_uint64)
    moreover have "word_at bytes 1 = nat (Nonce p mod 2 ^ 256)"
      using w(2) by (simp only: be_nat_U256)
    moreover have "word_at bytes 2 = unat app"
      using w(3) by (simp only: be_nat_encAddress)
    moreover have "word_at bytes 3 = 128"
      using w(4) by (simp add: be_nat_packNum)
    moreover have "word_at bytes 4 = length parts mod 2 ^ 256"
      using w(5) by (simp only: be_nat_packNum)
    moreover have "\<forall>i<length parts. word_at bytes (5 + i) = unat (parts ! i)"
      using w(6) by blast
    ultimately show ?thesis by blast
  qed
  have "\<exists>e. ChannelID Keccak256 (Some p) = Inl e \<and> is_panic e" if "\<not> hasEncoding p"
  proof -
    from that obtain e where "channelParamsToEthParams p = Inl e" "is_panic e"
      using channelParamsToEthParams_fail by blast
    then show ?thesis by (simp add: ChannelID_def)
  qed
  with first hasEncoding_iff [of p] show ?thesis by blast
qed

theorem ChannelID_is_hash_of_abi_encoding_witness:
  "App example_params = AppDef (EthAddress 3) \<and>
   Parts example_params = map EthAddress [1, 2] \<and>
   ChannelID (\<lambda>bytes. of_nat (word_at bytes 1 + word_at bytes 6)) (Some example_params)
     = Inr 9 \<and>
   \<not> hasEncoding (example_params\<lparr>App := NilApp\<rparr>) \<and>
   ChannelID (\<lambda>bytes. of_nat (word_at bytes 1 + word_at bytes 6))
       (Some (example_params\<lparr>App := NilApp\<rparr>))
     = Inl nil_dereference"
proof -
  let ?K = "\<lambda>bytes. of_nat (word_at bytes 1 + word_at bytes 6) :: 256 word"
  let ?bytes = "U256 (int (unat (ChallengeDuration example_params)))
                  @ U256 (Nonce example_params) @ encAddress 3 @ packNum 128
                  @ packNum (length [1, 2 :: 160 word]) @ concat (map encAddress [1, 2])"
  have a: "App example_params = AppDef (EthAddress 3)"
    and b: "Parts example_params = map EthAddress [1, 2]"
    and n: "Nonce example_params = 7"
    by (simp_all add: example_params_def)
  from ChannelID_is_hash_of_abi_encoding [of example_params ?K] a b
  have id: "ChannelID ?K (Some example_params) = Inr (?K ?bytes)"
    and w1: "word_at ?bytes 1 = nat (Nonce example_params mod 2 ^ 256)"
    and ws: "\<forall>i<length [1, 2 :: 160 word]. word_at ?bytes (5 + i) = unat ([1, 2 :: 160 word] ! i)"
    by blast+
  have w6: "word_at ?bytes 6 = 2"
    using ws [rule_format, of 1] by simp
  from w1 n have "word_at ?bytes 1 = 7" by simp
  with w6 id have "ChannelID ?K (Some example_params) = Inr 9" by simp
  moreover have "\<not> hasEncoding (example_params\<lparr>App := NilApp\<rparr>)"
    by (simp add: hasEncoding_def)
  moreover have "ChannelID ?K (Some (example_params\<lparr>App := NilApp\<rparr>)) = Inl nil_dereference"
    by (simp add: ChannelID_def channelParamsToEthParams_def)
  ultimately show ?thesis using a b by blast
qed






text \<open>
  C4, as stated, fails: the participants are packed as the ABI type \<open>address[]\<close>,
  and the encoding of a slice starts with its element count. The one-element list
  \<open>[1]\<close> encodes to 64 bytes, its single element to 32; the parameters with this
  list encode to 192 bytes (three words, the offset of the list, its count, its element),
  not to the 128 bytes of three words and a bare concatenation.
\<close>

theorem list_encoding_has_no_length_prefix_counterexample:
  "pack abiAddressArr (SliceV (map AddressV [1])) \<noteq> Inr (spec_list_encoding encAddress [1]) \<and>
   encodeParams \<lparr>Params_ChallengeDuration = 0, Params_Nonce = 0, Params_App = 0,
                  Params_Participants = [1]\<rparr>
     \<noteq> Inr (spec_encodeParams \<lparr>Params_ChallengeDuration = 0, Params_Nonce = 0,
                                   Params_App = 0, Params_Participants = [1]\<rparr>)"
proof -
  let ?params = "\<lparr>Params_ChallengeDuration = 0, Params_Nonce = 0, Params_App = 0,
                  Params_Participants = [1]\<rparr>"
  have "length (encAddressArr [1]) \<noteq> length (spec_list_encoding encAddress [1])"
    by (simp add: spec_list_encoding_def)
  then have "encAddressArr [1] \<noteq> spec_list_encoding encAddress [1]"
    by metis
  then have list: "pack abiAddressArr (SliceV (map AddressV [1]))
                     \<noteq> Inr (spec_list_encoding encAddress [1])"
    by (simp only: pack_abiAddressArr sum.inject not_False_eq_True)
  have "length (U256 (Params_ChallengeDuration ?params) @ U256 (Params_Nonce ?params)
                 @ encAddress (Params_App ?params) @ packNum 128
                 @ encAddressArr (Params_Participants ?params))
          \<noteq> length (spec_encodeParams ?params)"
    by (simp add: spec_encodeParams_def spec_list_encoding_def)
  then have "U256 (Params_ChallengeDuration ?params) @ U256 (Params_Nonce ?params)
               @ encAddress (Params_App ?params) @ packNum 128
               @ encAddressArr (Params_Participants ?params)
             \<noteq> spec_encodeParams ?params"
    by metis
  then have "encodeParams ?params \<noteq> Inr (spec_encodeParams ?params)"
    by (simp only: encodeParams_bytes sum.inject not_False_eq_True)
  with list show ?thesis by blast
qed

text \<open>
  C4, amended. Every ordered list is encoded as the concatenation of its elements'
  encodings in list order, preceded by a prefix except for the locked sub-allocations:
  participants, assets, and the balances of a row or of a sub-allocation follow their
  32-byte element count; the rows of the balance matrix follow the row count and one
  32-byte offset per row; the locked sub-allocations are concatenated with no count (the
  byte string is then packed as \<open>bytes\<close>, behind its byte length).
\<close>

theorem list_encodings_with_length_prefix:
  "encodeParams params
     = Inr (U256 (Params_ChallengeDuration params) @ U256 (Params_Nonce params)
            @ encAddress (Params_App params) @ packNum 128
            @ packNum (length (Params_Participants params))
            @ spec_list_encoding encAddress (Params_Participants params)) \<and>
   encodeAllocation alloc
     = Inr (packNum 96
            @ packNum (96 + (32 + 32 * length (Allocation_Assets alloc)))
            @ packNum (96 + (32 + 32 * length (Allocation_Assets alloc))
                         + lenUint256ArrArr (Allocation_Balances alloc))
            @ packNum (length (Allocation_Assets alloc))
            @ spec_list_encoding encAddress (Allocation_Assets alloc)
            @ packNum (length (Allocation_Balances alloc))
            @ rowOffsets (32 * length (Allocation_Balances alloc)) (Allocation_Balances alloc)
            @ spec_list_encoding (\<lambda>row. packNum (length row) @ spec_list_encoding U256 row)
                (Allocation_Balances alloc)
            @ packNum (lenSubAllocs (Allocation_Locked alloc))
            @ spec_list_encoding encSubAlloc (Allocation_Locked alloc)) \<and>
   encodeSubAllocs (Allocation_Locked alloc) []
     = Inr (spec_list_encoding encSubAlloc (Allocation_Locked alloc)) \<and>
   encodeSubAlloc sub
     = Inr (encBytes32 (SubAlloc_ID sub) @ packNum 64
            @ packNum (length (SubAlloc_Balances sub))
            @ spec_list_encoding U256 (SubAlloc_Balances sub))"
  by (simp add: encodeParams_bytes encodeAllocation_bytes encodeSubAllocs_bytes
      encodeSubAlloc_bytes encAllocation_def encAddressArr_def encUint256ArrArr_def
      encUint256Arr_def [abs_def] encSubAlloc_def spec_list_encoding_def Let_def)

section \<open>Properties of the Funder\<close>

lemma outlasts_tick: "outlasts ctx (Suc n) \<Longrightarrow> outlasts (tick ctx) n \<and> \<not> expired ctx"
  by (cases ctx; cases "the ctx") auto

lemma outlasts_mono: "outlasts ctx n \<Longrightarrow> m \<le> n \<Longrightarrow> outlasts ctx m"
  by (cases ctx) auto

lemma fundAssets_deposited_mono:
  "fundAssets cid idx xs ctx L = (r, L') \<Longrightarrow> deposited L key \<le> deposited L' key"
proof (induction cid idx xs ctx L rule: fundAssets.induct)
  case (1 cid idx ctx L)
  then show ?case by simp
next
  case (2 cid idx asset amount rest ctx L)
  show ?case
  proof (cases "amount = 0")
    case True
    with 2 show ?thesis by simp
  next
    case nz: False
    show ?thesis
    proof (cases "expired ctx")
      case True
      with nz "2.prems" show ?thesis by auto
    next
      case live: False
      let ?L1 = "L\<lparr>calls := calls L @ [DepositedAmount cid asset idx]\<rparr>"
      let ?held = "deposited L (cid, asset, idx)"
      show ?thesis
      proof (cases "amount \<le> ?held")
        case True
        with nz live "2.prems" have "fundAssets cid idx rest (tick ctx) ?L1 = (r, L')"
          by (simp add: Let_def)
        from "2.IH"(2) [OF nz live refl refl True this] show ?thesis by simp
      next
        case short: False
        show ?thesis
        proof (cases "expired (tick ctx)")
          case True
          with nz live short "2.prems" show ?thesis by (auto simp: Let_def)
        next
          case live2: False
          let ?L2 = "?L1\<lparr>calls := calls ?L1 @ [Deposit cid asset idx (amount - ?held)]\<rparr>"
          show ?thesis
          proof (cases "confirms L (cid, asset, idx) (amount - ?held)")
            case False
            with nz live short live2 "2.prems" show ?thesis by (auto simp: Let_def)
          next
            case True
            let ?L3 = "?L2\<lparr>deposited := (deposited ?L2)((cid, asset, idx) := ?held + (amount - ?held))\<rparr>"
            from nz live short live2 True "2.prems"
            have "fundAssets cid idx rest (tick (tick ctx)) ?L3 = (r, L')"
              by (simp add: Let_def)
            from "2.IH"(3) [OF nz live refl refl short live2 refl _ this] True
            have "deposited ?L3 key \<le> deposited L' key" by simp
            moreover have "deposited L key \<le> deposited ?L3 key" by simp
            ultimately show ?thesis by linarith
          qed
        qed
      qed
    qed
  qed
qed

lemma fundAssets_covers:
  "fundAssets cid idx xs ctx L = (None, L') \<Longrightarrow> (asset, amount) \<in> set xs
     \<Longrightarrow> amount \<le> deposited L' (cid, asset, idx)"
proof (induction xs arbitrary: ctx L)
  case Nil
  then show ?case by simp
next
  case (Cons x xs)
  obtain a n where x: "x = (a, n)" by (cases x)
  let ?L1 = "L\<lparr>calls := calls L @ [DepositedAmount cid a idx]\<rparr>"
  let ?held = "deposited L (cid, a, idx)"
  let ?L3 = "?L1\<lparr>calls := calls ?L1 @ [Deposit cid a idx (n - ?held)],
                 deposited := (deposited L)((cid, a, idx) := ?held + (n - ?held))\<rparr>"
  from Cons.prems(1) x consider
      (zero) "n = 0" "fundAssets cid idx xs ctx L = (None, L')"
    | (covered) "n \<le> ?held" "fundAssets cid idx xs (tick ctx) ?L1 = (None, L')"
    | (paid) "\<not> n \<le> ?held" "fundAssets cid idx xs (tick (tick ctx)) ?L3 = (None, L')"
    by (auto simp: Let_def split: if_splits)
  then show ?case
  proof cases
    case zero
    show ?thesis
    proof (cases "(asset, amount) = x")
      case True
      with x zero show ?thesis by simp
    next
      case False
      with Cons.prems(2) have "(asset, amount) \<in> set xs" by simp
      with Cons.IH zero show ?thesis by blast
    qed
  next
    case covered
    show ?thesis
    proof (cases "(asset, amount) = x")
      case True
      with x covered fundAssets_deposited_mono [OF covered(2), of "(cid, a, idx)"]
      show ?thesis by simp
    next
      case False
      with Cons.prems(2) have "(asset, amount) \<in> set xs" by simp
      with Cons.IH covered show ?thesis by blast
    qed
  next
    case paid
    show ?thesis
    proof (cases "(asset, amount) = x")
      case True
      with x paid fundAssets_deposited_mono [OF paid(2), of "(cid, a, idx)"]
      show ?thesis by simp
    next
      case False
      with Cons.prems(2) have "(asset, amount) \<in> set xs" by simp
      with Cons.IH paid show ?thesis by blast
    qed
  qed
qed

lemma fundAssets_covered_only_queries:
  "\<forall>(asset, amount) \<in> set xs. amount \<le> deposited L (cid, asset, idx) \<Longrightarrow>
   outlasts ctx (length xs) \<Longrightarrow>
   \<exists>qs. fundAssets cid idx xs ctx L = (None, L\<lparr>calls := calls L @ qs\<rparr>)
          \<and> list_all is_query qs"
proof (induction xs arbitrary: ctx L)
  case Nil
  have "fundAssets cid idx [] ctx L = (None, L\<lparr>calls := calls L @ []\<rparr>)" by simp
  moreover have "list_all is_query []" by simp
  ultimately show ?case by blast
next
  case (Cons x xs)
  obtain a n where x: "x = (a, n)" by (cases x)
  let ?L1 = "L\<lparr>calls := calls L @ [DepositedAmount cid a idx]\<rparr>"
  from Cons.prems(2) have live: "\<not> expired ctx" and rest: "outlasts (tick ctx) (length xs)"
    using outlasts_tick [of ctx "length xs"] by simp_all
  from Cons.prems(2) have rest0: "outlasts ctx (length xs)"
    by (rule outlasts_mono) simp
  from Cons.prems(1) x have cov: "n \<le> deposited L (cid, a, idx)" by simp
  show ?case
  proof (cases "n = 0")
    case True
    from Cons.prems(1) have "\<forall>(asset, amount) \<in> set xs. amount \<le> deposited L (cid, asset, idx)"
      by simp
    from Cons.IH [OF this rest0] x True show ?thesis by simp
  next
    case False
    from Cons.prems(1)
    have "\<forall>(asset, amount) \<in> set xs. amount \<le> deposited ?L1 (cid, asset, idx)"
      by simp
    from Cons.IH [OF this rest] obtain qs where
      qs: "fundAssets cid idx xs (tick ctx) ?L1 = (None, ?L1\<lparr>calls := calls ?L1 @ qs\<rparr>)"
          "list_all is_query qs"
      by blast
    have "fundAssets cid idx (x # xs) ctx L
            = (None, L\<lparr>calls := calls L @ (DepositedAmount cid a idx # qs)\<rparr>)"
      using x False live cov qs(1) by (simp add: Let_def)
    moreover have "list_all is_query (DepositedAmount cid a idx # qs)"
      using qs(2) by simp
    ultimately show ?thesis by blast
  qed
qed

lemma fundAssets_deposited_bound:
  "fundAssets cid idx xs ctx L = (r, L') \<Longrightarrow>
     deposited L' (cid, a, idx) \<le> max (deposited L (cid, a, idx)) (allocated xs a)"
proof (induction xs arbitrary: ctx L)
  case Nil
  then show ?case by simp
next
  case (Cons x xs)
  obtain b n where x: "x = (b, n)" by (cases x)
  let ?L1 = "L\<lparr>calls := calls L @ [DepositedAmount cid b idx]\<rparr>"
  let ?held = "deposited L (cid, b, idx)"
  let ?L2 = "?L1\<lparr>calls := calls ?L1 @ [Deposit cid b idx (n - ?held)]\<rparr>"
  let ?L3 = "?L1\<lparr>calls := calls ?L1 @ [Deposit cid b idx (n - ?held)],
                 deposited := (deposited L)((cid, b, idx) := ?held + (n - ?held))\<rparr>"
  from Cons.prems x consider
      (stop) "deposited L' = deposited L"
    | (zero) "fundAssets cid idx xs ctx L = (r, L')"
    | (covered) "fundAssets cid idx xs (tick ctx) ?L1 = (r, L')"
    | (paid) "\<not> n \<le> ?held" "fundAssets cid idx xs (tick (tick ctx)) ?L3 = (r, L')"
    by (auto simp: Let_def split: if_splits)
  then show ?case
  proof cases
    case stop
    then show ?thesis by simp
  next
    case zero
    from Cons.IH [OF zero] x show ?thesis by auto
  next
    case covered
    from Cons.IH [OF covered] x show ?thesis by auto
  next
    case paid
    from Cons.IH [OF paid(2)] x paid(1) show ?thesis by auto
  qed
qed

lemmas funder_eval =
  Fund_def example_req_def empty_ledger_def funded_ledger_def entry_def Let_def

lemma fundAssets_all_zero:
  "\<forall>(asset, amount) \<in> set xs. amount = 0 \<Longrightarrow> fundAssets cid idx xs ctx L = (None, L)"
  by (induction xs) auto

text \<open>
  C8. Let a call of \<open>Fund\<close> succeed and leave the ledger \<open>L1\<close>. A second call
  with the same request, under a context that does not fire during one balance query per
  asset, succeeds as well; it leaves every deposited amount as it was and makes only
  balance queries, no deposit. After it no amount of the participant exceeds the larger
  of what the ledger held before the first call and what the request allocates.
\<close>

theorem Fund_twice_is_idempotent:
  assumes "Fund channelID ctx req L = (None, L1)"
      and "Req_Params req = Some p"
      and "Req_Allocation req = Some alloc"
      and "outlasts ctx2 (length (Alloc_Assets alloc))"
  shows "(\<exists>qs. Fund channelID ctx2 req L1 = (None, L1\<lparr>calls := calls L1 @ qs\<rparr>)
               \<and> list_all is_query qs) \<and>
         (\<forall>asset. deposited L1 (channelID p, asset, Idx req)
                    \<le> max (deposited L (channelID p, asset, Idx req))
                          (allocated (zip (Alloc_Assets alloc) (entry alloc (Idx req))) asset))"
proof -
  note p = assms(2)
  let ?e = "entry alloc (Idx req)"
  let ?xs = "zip (Alloc_Assets alloc) ?e"
  show ?thesis
  proof (cases "list_all (\<lambda>amount. amount = 0) ?e")
    case True
    with p assms(3) have "Fund channelID ctx2 req L1 = (None, L1\<lparr>calls := calls L1 @ []\<rparr>)"
      by (simp add: Fund_def)
    moreover have "list_all is_query []" by simp
    ultimately have "\<exists>qs. Fund channelID ctx2 req L1 = (None, L1\<lparr>calls := calls L1 @ qs\<rparr>)
        \<and> list_all is_query qs"
      by blast
    moreover from True p assms(1,3) have "L1 = L" by (simp add: Fund_def)
    ultimately show ?thesis by simp
  next
    case False
    with p assms(1,3) have first: "fundAssets (channelID p) (Idx req) ?xs ctx L = (None, L1)"
      by (simp add: Fund_def)
    have "\<forall>(asset, amount) \<in> set ?xs. amount \<le> deposited L1 (channelID p, asset, Idx req)"
      using fundAssets_covers [OF first] by blast
    moreover have "outlasts ctx2 (length ?xs)"
      using assms(4) by (rule outlasts_mono) simp
    ultimately obtain qs where
      "fundAssets (channelID p) (Idx req) ?xs ctx2 L1 = (None, L1\<lparr>calls := calls L1 @ qs\<rparr>)"
      "list_all is_query qs"
      using fundAssets_covered_only_queries by blast
    with p assms(3) False have "\<exists>qs. Fund channelID ctx2 req L1
        = (None, L1\<lparr>calls := calls L1 @ qs\<rparr>) \<and> list_all is_query qs"
      by (auto simp: Fund_def)
    then show ?thesis
      using fundAssets_deposited_bound [OF first] by blast
  qed
qed

theorem Fund_twice_is_idempotent_witness:
  "Fund (\<lambda>p. 0) (Some 2) example_req empty_ledger = (None, funded_ledger) \<and>
   outlasts (Some 1) (length [TestAsset (EthAddress 9)]) \<and>
   Fund (\<lambda>p. 0) (Some 1) example_req funded_ledger
     = (None, funded_ledger\<lparr>calls := calls funded_ledger
                @ [DepositedAmount 0 (TestAsset (EthAddress 9)) 0]\<rparr>)"
proof -
  have h1: "Fund (\<lambda>p. 0) (Some 2) example_req empty_ledger = (None, funded_ledger)"
    by (simp add: funder_eval numeral_2_eq_2)
  have h2: "Req_Params example_req = Some example_params"
    by (simp add: example_req_def)
  have h3: "Req_Allocation example_req
              = Some \<lparr>Alloc_Assets = [TestAsset (EthAddress 9)], Alloc_OfParts = [[100], [50]]\<rparr>"
    by (simp add: example_req_def)
  have h4: "outlasts (Some 1)
              (length (Alloc_Assets \<lparr>Alloc_Assets = [TestAsset (EthAddress 9)],
                                      Alloc_OfParts = [[100], [50]]\<rparr>))"
    by simp
  from Fund_twice_is_idempotent [OF h1 h2 h3 h4] h1 show ?thesis
    by (simp add: funder_eval)
qed

text \<open>
  C9. For a request whose parameters and allocation are not nil and whose entry for the
  local participant is empty or zero for every asset, \<open>Fund\<close> succeeds, whatever the
  context, and the ledger is the one it was called on: the deposits are unchanged and no
  call, neither a balance query nor a deposit, has been recorded. The loop over the
  assets, run on such an entry, does the same.
\<close>

theorem Fund_empty_allocation_is_noop:
  assumes "Req_Params req = Some p" and "Req_Allocation req = Some alloc"
      and "list_all (\<lambda>amount. amount = 0) (entry alloc (Idx req))"
  shows "Fund channelID ctx req L = (None, L) \<and>
         fundAssets (channelID p) (Idx req)
           (zip (Alloc_Assets alloc) (entry alloc (Idx req))) ctx L = (None, L)"
proof -
  have "\<forall>(asset, amount) \<in> set (zip (Alloc_Assets alloc) (entry alloc (Idx req))). amount = 0"
    using assms(3) by (auto simp: list_all_iff dest: set_zip_rightD)
  then have "fundAssets (channelID p) (Idx req)
               (zip (Alloc_Assets alloc) (entry alloc (Idx req))) ctx L = (None, L)"
    by (rule fundAssets_all_zero)
  with assms show ?thesis by (simp add: Fund_def)
qed

theorem Fund_empty_allocation_is_noop_witness:
  "Fund (\<lambda>p. 0) (Some 0)
     \<lparr>Req_Params = Some example_params,
      Req_Allocation = Some \<lparr>Alloc_Assets = [], Alloc_OfParts = []\<rparr>, Idx = 0\<rparr> empty_ledger
     = (None, empty_ledger) \<and>
   Fund (\<lambda>p. 0) None
     \<lparr>Req_Params = Some example_params,
      Req_Allocation = Some \<lparr>Alloc_Assets = [TestAsset (EthAddress 9)],
                              Alloc_OfParts = [[100], [0]]\<rparr>, Idx = 1\<rparr> funded_ledger
     = (None, funded_ledger)"
  using Fund_empty_allocation_is_noop
          [of "\<lparr>Req_Params = Some example_params,
                Req_Allocation = Some \<lparr>Alloc_Assets = [], Alloc_OfParts = []\<rparr>, Idx = 0\<rparr>"
              example_params "\<lparr>Alloc_Assets = [], Alloc_OfParts = []\<rparr>" "\<lambda>p. 0" "Some 0"
              empty_ledger]
        Fund_empty_allocation_is_noop
          [of "\<lparr>Req_Params = Some example_params,
                Req_Allocation = Some \<lparr>Alloc_Assets = [TestAsset (EthAddress 9)],
                                        Alloc_OfParts = [[100], [0]]\<rparr>, Idx = 1\<rparr>"
              example_params
              "\<lparr>Alloc_Assets = [TestAsset (EthAddress 9)], Alloc_OfParts = [[100], [0]]\<rparr>"
              "\<lambda>p. 0" None funded_ledger]
  by (simp add: entry_def)

end
